theory Spec2Isabelle
  imports Main
begin

section \<open>gdpr/utils.py: helper functions of django-GDPR\<close>

text \<open>
  A shallow embedding of \<^verbatim>\<open>src/gdpr/utils.py\<close>. Python lists are HOL lists, Python
  integers are \<^typ>\<open>int\<close>, a raised exception is the left injection of a sum, and a
  generator is the list of what it yields (\<open>None\<close> when it never stops).
\<close>

subsection \<open>Python exceptions\<close>

text \<open>
  The exceptions the module meets. \<open>NegativeIndexing\<close> is what a Django QuerySet raises
  on a negative index ("Negative indexing is not supported."): an AssertionError before
  Django 4.0 and a ValueError since, in both cases not an IndexError.
\<close>

datatype error =
    IndexError
  | NegativeIndexing
  | ValueError
  | TypeError
  | ImportError
  | AttributeError
  | FieldDoesNotExist
  | OtherError string

subsection \<open>chunked\_iterator\<close>

text \<open>
  Python's \<^verbatim>\<open>xs[start:stop]\<close> on a list: a negative bound counts from the end, both
  bounds are clamped to the list, and an empty range gives the empty list.
\<close>

definition py_slice :: "'a list \<Rightarrow> int \<Rightarrow> int \<Rightarrow> 'a list" where
  "py_slice xs start stop =
     (let n = int (length xs);
          lo = (if start < 0 then max (n + start) 0 else min start n);
          hi = (if stop < 0 then max (n + stop) 0 else min stop n)
      in take (nat (hi - lo)) (drop (nat lo) xs))"

text \<open>
  \<^verbatim>\<open>
  for i in count():
      start = i * chunk_size
      chunk = iterable[start : start + chunk_size]
      for j in chunk:
          yield j
      if len(chunk) < chunk_size:
          break
  \<close>
  The loop from counter \<open>i\<close> on, as the list of the chunks it fetches; \<open>None\<close> when
  the loop never reaches its \<^verbatim>\<open>break\<close>.
\<close>

partial_function (option) chunked_iterator_from :: "'a list \<Rightarrow> int \<Rightarrow> nat \<Rightarrow> 'a list list option" where
  "chunked_iterator_from iterable chunk_size i =
     (let start = int i * chunk_size;
          chunk = py_slice iterable start (start + chunk_size)
      in if int (length chunk) < chunk_size then Some [chunk]
         else Option.bind (chunked_iterator_from iterable chunk_size (Suc i))
                (\<lambda>rest. Some (chunk # rest)))"

declare chunked_iterator_from.simps [code]

text \<open>The items the generator yields: those of every fetched chunk, in order.\<close>

definition chunked_iterator :: "'a list \<Rightarrow> int \<Rightarrow> 'a list option" where
  "chunked_iterator iterable chunk_size =
     map_option concat (chunked_iterator_from iterable chunk_size 0)"

subsection \<open>chunked\_queryset\<close>

text \<open>
  A database row: its integer primary key and the rest of its columns. A QuerySet is
  modelled by the list of rows it evaluates to, over a table that does not change while
  the generator runs.
\<close>

datatype 'a row = Row (pk: int) (fields: 'a)

text \<open>
  The QuerySet operations the function calls (Django's, not this repository's):
  \<^verbatim>\<open>order_by('pk')\<close>, \<^verbatim>\<open>filter(pk__gt=k)\<close>, \<^verbatim>\<open>filter(pk__lte=k)\<close>, \<^verbatim>\<open>exists()\<close>,
  \<^verbatim>\<open>values_list('pk', flat=True)\<close>, indexing with an integer and \<^verbatim>\<open>last()\<close>.
  Indexing refuses a negative index before it looks at the rows, and raises IndexError
  past the end; \<^verbatim>\<open>last()\<close> of an empty QuerySet is Python's None.
\<close>

definition order_by_pk :: "'a row list \<Rightarrow> 'a row list" where
  "order_by_pk queryset = sort_key pk queryset"

definition filter_pk_gt :: "int \<Rightarrow> 'a row list \<Rightarrow> 'a row list" where
  "filter_pk_gt k queryset = filter (\<lambda>r. k < pk r) queryset"

definition filter_pk_lte :: "int \<Rightarrow> 'a row list \<Rightarrow> 'a row list" where
  "filter_pk_lte k queryset = filter (\<lambda>r. pk r \<le> k) queryset"

definition qs_exists :: "'a row list \<Rightarrow> bool" where
  "qs_exists queryset = (queryset \<noteq> [])"

definition values_list_pk :: "'a row list \<Rightarrow> int list" where
  "values_list_pk queryset = map pk queryset"

definition qs_index :: "'b list \<Rightarrow> int \<Rightarrow> error + 'b" where
  "qs_index xs k =
     (if k < 0 then Inl NegativeIndexing
      else if int (length xs) \<le> k then Inl IndexError
      else Inr (xs ! nat k))"

definition qs_last :: "'b list \<Rightarrow> 'b option" where
  "qs_last xs = (if xs = [] then None else Some (last xs))"

text \<open>
  One pass through the body of \<^verbatim>\<open>while True\<close>, from the cursor \<open>start_pk\<close>:
  \<^verbatim>\<open>
  if not queryset.filter(pk__gt=start_pk).exists():
      break
  try:
      end_pk = queryset.filter(pk__gt=start_pk).values_list('pk', flat=True)[chunk_size - 1]
  except IndexError:
      end_pk = queryset.values_list('pk', flat=True).last()
  yield queryset.filter(pk__gt=start_pk).filter(pk__lte=end_pk)
  start_pk = end_pk
  \<close>
  The pass breaks, raises, or yields a chunk and moves the cursor to \<open>end_pk\<close>. Only
  IndexError is caught. Were \<^verbatim>\<open>last()\<close> to give None, the filter on \<^verbatim>\<open>pk__lte=None\<close>
  would be refused (ValueError); the QuerySet has a row at that point, so that branch is
  never taken.
\<close>

datatype 'a step = Break | Raise error | Yield "'a row list" int

definition chunked_queryset_step :: "'a row list \<Rightarrow> int \<Rightarrow> int \<Rightarrow> 'a step" where
  "chunked_queryset_step queryset chunk_size start_pk =
     (if \<not> qs_exists (filter_pk_gt start_pk queryset) then Break
      else
        case (case qs_index (values_list_pk (filter_pk_gt start_pk queryset)) (chunk_size - 1) of
                Inr p \<Rightarrow> Inr (Some p)
              | Inl e \<Rightarrow>
                  if e = IndexError then Inr (qs_last (values_list_pk queryset)) else Inl e) of
          Inl e \<Rightarrow> Raise e
        | Inr None \<Rightarrow> Raise ValueError
        | Inr (Some end_pk) \<Rightarrow>
            Yield (filter_pk_lte end_pk (filter_pk_gt start_pk queryset)) end_pk)"

text \<open>
  The loop, over the ordered QuerySet: the chunks the generator yields, and the exception
  that ended it, if one did. \<open>None\<close> when the loop never ends.
\<close>

partial_function (option) chunked_queryset_loop ::
  "'a row list \<Rightarrow> int \<Rightarrow> int \<Rightarrow> ('a row list list \<times> error option) option" where
  "chunked_queryset_loop queryset chunk_size start_pk =
     (case chunked_queryset_step queryset chunk_size start_pk of
        Break \<Rightarrow> Some ([], None)
      | Raise e \<Rightarrow> Some ([], Some e)
      | Yield chunk end_pk \<Rightarrow>
          Option.bind (chunked_queryset_loop queryset chunk_size end_pk)
            (\<lambda>(chunks, err). Some (chunk # chunks, err)))"

declare chunked_queryset_loop.simps [code]

text \<open>
  \<^verbatim>\<open>
  start_pk = 0
  queryset = queryset.order_by('pk')
  while True: ...
  \<close>
\<close>

definition chunked_queryset :: "'a row list \<Rightarrow> int \<Rightarrow> ('a row list list \<times> error option) option" where
  "chunked_queryset queryset chunk_size = chunked_queryset_loop (order_by_pk queryset) chunk_size 0"

text \<open>
  Each chunk of a run holds only rows whose key is above the last key seen before it
  (\<open>last_seen\<close> at the start, then the key of the last row of the chunk before), and no
  chunk is empty.
\<close>

fun keys_after :: "int \<Rightarrow> 'a row list list \<Rightarrow> bool" where
  "keys_after last_seen [] = True"
| "keys_after last_seen (chunk # chunks) =
     (chunk \<noteq> [] \<and> list_all (\<lambda>r. last_seen < pk r) chunk \<and> keys_after (pk (last chunk)) chunks)"

subsection \<open>ProgressBarStream\<close>

text \<open>
  A Python argument value: a string, or any other value. The wrapped stream is an object
  with a \<^verbatim>\<open>write\<close> and a \<^verbatim>\<open>flush\<close> method; \<open>'s\<close> is the state they act on (what
  has been written), and each returns a result or raises.
\<close>

datatype 'v pyarg = PyStr string | PyVal 'v

record ('v, 'r, 's) stream =
  stream_write :: "'v pyarg list \<Rightarrow> (string \<rightharpoonup> 'v pyarg) \<Rightarrow> 's \<Rightarrow> (error + 'r) \<times> 's"
  stream_flush :: "'s \<Rightarrow> (error + 'r) \<times> 's"

text \<open>\<^verbatim>\<open>self.stream = stream\<close>\<close>

record ('v, 'r, 's) ProgressBarStream =
  stream :: "('v, 'r, 's) stream"

text \<open>
  \<^verbatim>\<open>return self.stream.write(ending="", *args, **kwargs)\<close>
  Python binds every keyword once: when \<^verbatim>\<open>kwargs\<close> has the key \<^verbatim>\<open>ending\<close> too, the call
  raises TypeError (multiple values for keyword argument 'ending') before the stream's
  \<^verbatim>\<open>write\<close> runs.
\<close>

definition ProgressBarStream_write ::
  "('v, 'r, 's) ProgressBarStream \<Rightarrow> 'v pyarg list \<Rightarrow> (string \<rightharpoonup> 'v pyarg) \<Rightarrow> 's \<Rightarrow> (error + 'r) \<times> 's" where
  "ProgressBarStream_write self args kwargs s =
     (if ''ending'' \<in> dom kwargs then (Inl TypeError, s)
      else stream_write (stream self) args (kwargs(''ending'' \<mapsto> PyStr [])) s)"

text \<open>\<^verbatim>\<open>return self.stream.flush()\<close>\<close>

definition ProgressBarStream_flush :: "('v, 'r, 's) ProgressBarStream \<Rightarrow> 's \<Rightarrow> (error + 'r) \<times> 's" where
  "ProgressBarStream_flush self s = stream_flush (stream self) s"

text \<open>
  A stream to run the wrapper on: it records every write (the positional arguments and
  the line ending it was given) and returns the number of writes so far.
\<close>

definition recording_stream :: "(unit, nat, (unit pyarg list \<times> unit pyarg option) list) stream" where
  "recording_stream =
     \<lparr> stream_write = (\<lambda>args kwargs s. (Inr (Suc (length s)), s @ [(args, kwargs ''ending'')])),
       stream_flush = (\<lambda>s. (Inr (length s), s)) \<rparr>"

subsection \<open>str\_to\_class\<close>

text \<open>
  \<^verbatim>\<open>s.rsplit(sep, 1)\<close> for a one-character separator: the string split at its last
  separator, or the string alone when it has none.
\<close>

definition rsplit1 :: "char \<Rightarrow> string \<Rightarrow> string list" where
  "rsplit1 sep s =
     (if sep \<in> set s
      then [rev (tl (dropWhile (\<lambda>c. c \<noteq> sep) (rev s))), rev (takeWhile (\<lambda>c. c \<noteq> sep) (rev s))]
      else [s])"

text \<open>
  \<^verbatim>\<open>
  module_name, class_name = class_string.rsplit('.', 1)
  m = __import__(module_name, globals(), locals(), [str(class_name)])
  c = getattr(m, class_name)
  return c
  \<close>
  The interpreter's \<^verbatim>\<open>__import__\<close> (given the module name and the from-list) and
  \<^verbatim>\<open>getattr\<close> are parameters: each returns a value or raises. Unpacking a list of one
  element into two names raises ValueError.
\<close>

definition str_to_class ::
  "(string \<Rightarrow> string list \<Rightarrow> error + 'm) \<Rightarrow> ('m \<Rightarrow> string \<Rightarrow> error + 'c) \<Rightarrow> string \<Rightarrow> error + 'c" where
  "str_to_class py_import py_getattr class_string =
     (case rsplit1 CHR ''.'' class_string of
        [module_name, class_name] \<Rightarrow>
          (case py_import module_name [class_name] of
             Inl e \<Rightarrow> Inl e
           | Inr m \<Rightarrow> py_getattr m class_name)
      | _ \<Rightarrow> Inl ValueError)"

subsection \<open>get\_number\_guess\_len\<close>

text \<open>Python's \<^verbatim>\<open>str\<close> of an integer: its decimal digits, after a minus sign when negative.\<close>

definition digit_char :: "nat \<Rightarrow> char" where
  "digit_char d = char_of (48 + d)"

fun str_nat :: "nat \<Rightarrow> string" where
  "str_nat n = (if n < 10 then [digit_char n] else str_nat (n div 10) @ [digit_char (n mod 10)])"

definition str_int :: "int \<Rightarrow> string" where
  "str_int i = (if i < 0 then CHR ''-'' # str_nat (nat (- i)) else str_nat (nat i))"

text \<open>
  \<^verbatim>\<open>
  guess_len = len(str(int(value)))
  return guess_len if guess_len % 2 != 0 else (guess_len - 1)
  \<close>
  \<open>value\<close> is the integer \<^verbatim>\<open>int(value)\<close> gives (the conversion itself, which drops the
  fraction of a float or a decimal, is outside the model).
\<close>

definition get_number_guess_len :: "int \<Rightarrow> int" where
  "get_number_guess_len value =
     (let guess_len = int (length (str_int value))
      in if guess_len mod 2 \<noteq> 0 then guess_len else guess_len - 1)"

text \<open>
  A natural number has \<open>d\<close> decimal digits: it is below \<open>10 ^ d\<close> and, unless \<open>d = 1\<close>,
  not below \<open>10 ^ (d - 1)\<close>.
\<close>

definition has_decimal_digits :: "nat \<Rightarrow> nat \<Rightarrow> bool" where
  "has_decimal_digits n d = (0 < d \<and> n < 10 ^ d \<and> (d = 1 \<or> 10 ^ (d - 1) \<le> n))"

subsection \<open>get\_field\_or\_none\<close>

text \<open>
  \<^verbatim>\<open>path_info.join_field.name\<close>, and the part of a model's \<^verbatim>\<open>_meta\<close> the module uses
  (Django's, not this repository's): \<^verbatim>\<open>get_field\<close> returns a field or raises,
  \<^verbatim>\<open>get_parent_list()\<close> lists the parent models and \<^verbatim>\<open>get_path_to_parent\<close> gives the
  path to one of them.
\<close>

record path_info =
  join_field_name :: string

record ('m, 'f) options =
  get_field :: "string \<Rightarrow> error + 'f"
  get_parent_list :: "'m list"
  get_path_to_parent :: "'m \<Rightarrow> path_info list"

text \<open>
  \<^verbatim>\<open>
  try:
      return model._meta.get_field(field_name)
  except FieldDoesNotExist:
      return None
  \<close>
  \<open>meta\<close> is \<^verbatim>\<open>model._meta\<close>.
\<close>

definition get_field_or_none :: "('m, 'f) options \<Rightarrow> string \<Rightarrow> error + 'f option" where
  "get_field_or_none meta field_name =
     (case get_field meta field_name of
        Inr field \<Rightarrow> Inr (Some field)
      | Inl e \<Rightarrow> if e = FieldDoesNotExist then Inr None else Inl e)"

subsection \<open>Parent objects and their versions\<close>

text \<open>
  A Python value here is an object or None (\<open>'o option\<close>). \<open>attr ob name\<close> is the value of
  the attribute \<open>name\<close> of the object \<open>ob\<close>, None when the object has no such attribute.
  \<^verbatim>\<open>getattr(parent_obj, path, None)\<close> on None gives None: None has no attribute named
  as a model field.
\<close>

definition getattr_or_none :: "('o \<Rightarrow> string \<Rightarrow> 'o option) \<Rightarrow> 'o option \<Rightarrow> string \<Rightarrow> 'o option" where
  "getattr_or_none attr parent_obj path =
     (case parent_obj of None \<Rightarrow> None | Some ob \<Rightarrow> attr ob path)"

text \<open>
  \<^verbatim>\<open>
  parent_paths = [
      [path_info.join_field.name for path_info in parent_path]
      for parent_path in [
          obj._meta.get_path_to_parent(parent_model)
          for parent_model in obj._meta.get_parent_list()
      ]
  ]
  \<close>
\<close>

definition parent_paths :: "('m, 'f) options \<Rightarrow> string list list" where
  "parent_paths meta =
     map (map join_field_name) (map (get_path_to_parent meta) (get_parent_list meta))"

text \<open>
  \<^verbatim>\<open>
  parent_obj = obj
  for path in parent_path:
      parent_obj = getattr(parent_obj, path, None)
  \<close>
\<close>

definition follow_path :: "('o \<Rightarrow> string \<Rightarrow> 'o option) \<Rightarrow> 'o \<Rightarrow> string list \<Rightarrow> 'o option" where
  "follow_path attr obj parent_path = foldl (getattr_or_none attr) (Some obj) parent_path"

text \<open>
  \<^verbatim>\<open>
  parent_objects = []
  for parent_path in parent_paths:
      ...
      parent_objects.append(parent_obj)
  return [i for i in parent_objects if i is not None]
  \<close>
  \<open>meta\<close> is \<^verbatim>\<open>obj._meta\<close>.
\<close>

definition get_all_parent_objects ::
  "('o \<Rightarrow> string \<Rightarrow> 'o option) \<Rightarrow> ('m, 'f) options \<Rightarrow> 'o \<Rightarrow> 'o option list" where
  "get_all_parent_objects attr meta obj =
     (let parent_objects = map (follow_path attr obj) (parent_paths meta)
      in filter (\<lambda>i. i \<noteq> None) parent_objects)"

text \<open>
  \<^verbatim>\<open>return Version.objects.get_for_object(obj)\<close>
  The version store's \<^verbatim>\<open>get_for_object\<close> is a parameter; a QuerySet of versions is the
  list of versions it evaluates to.
\<close>

definition get_reversion_versions :: "('o option \<Rightarrow> 'v list) \<Rightarrow> 'o option \<Rightarrow> 'v list" where
  "get_reversion_versions get_for_object obj = get_for_object obj"

text \<open>
  \<^verbatim>\<open>
  return [get_reversion_versions(i) for i in get_all_parent_objects(obj)] + [
      get_reversion_versions(obj)
  ]
  \<close>
\<close>

definition get_all_obj_and_parent_versions_queryset_list ::
  "('o option \<Rightarrow> 'v list) \<Rightarrow> ('o \<Rightarrow> string \<Rightarrow> 'o option) \<Rightarrow> ('m, 'f) options \<Rightarrow> 'o \<Rightarrow> 'v list list" where
  "get_all_obj_and_parent_versions_queryset_list get_for_object attr meta obj =
     map (get_reversion_versions get_for_object) (get_all_parent_objects attr meta obj)
       @ [get_reversion_versions get_for_object (Some obj)]"

text \<open>
  \<^verbatim>\<open>
  return [
      item
      for sublist in get_all_obj_and_parent_versions_queryset_list(obj)
      for item in sublist
  ]
  \<close>
\<close>

definition get_all_obj_and_parent_versions ::
  "('o option \<Rightarrow> 'v list) \<Rightarrow> ('o \<Rightarrow> string \<Rightarrow> 'o option) \<Rightarrow> ('m, 'f) options \<Rightarrow> 'o \<Rightarrow> 'v list" where
  "get_all_obj_and_parent_versions get_for_object attr meta obj =
     concat (get_all_obj_and_parent_versions_queryset_list get_for_object attr meta obj)"

subsection \<open>A model to run the functions on\<close>

text \<open>
  A child model with a parent and a grandparent (multi-table inheritance): object 0 links
  to its parent 1 by \<open>parent_ptr\<close>, object 1 to the base 2 by \<open>base_ptr\<close>. The third
  path starts at a link that is not set.
\<close>

definition example_meta :: "(nat, nat) options" where
  "example_meta =
     \<lparr> get_field = (\<lambda>n. if n = ''name'' then Inr 7
                         else if n = ''broken'' then Inl (OtherError ''apps not ready'')
                         else Inl FieldDoesNotExist),
       get_parent_list = [10, 20, 30],
       get_path_to_parent = (\<lambda>m. if m = 10 then [\<lparr>join_field_name = ''parent_ptr''\<rparr>]
                                   else if m = 20 then [\<lparr>join_field_name = ''parent_ptr''\<rparr>, \<lparr>join_field_name = ''base_ptr''\<rparr>]
                                   else [\<lparr>join_field_name = ''gone_ptr''\<rparr>, \<lparr>join_field_name = ''base_ptr''\<rparr>]) \<rparr>"

definition example_attr :: "nat \<Rightarrow> string \<Rightarrow> nat option" where
  "example_attr ob name =
     (if ob = 0 \<and> name = ''parent_ptr'' then Some 1
      else if ob = 1 \<and> name = ''base_ptr'' then Some 2
      else None)"

definition example_versions :: "nat option \<Rightarrow> string list" where
  "example_versions ob =
     (if ob = Some 0 then [''c2'', ''c1'']
      else if ob = Some 1 then [''p1'']
      else if ob = Some 2 then [''b3'', ''b2'', ''b1'']
      else [])"

section \<open>Properties\<close>

subsection \<open>chunked\_iterator\<close>

lemma py_slice_nat:
  "py_slice xs (int s) (int s + int k) = take k (drop s xs)"
proof -
  have "int s + int k = int (s + k)" by simp
  then show ?thesis
    unfolding py_slice_def Let_def
    by (auto simp: min_def simp del: of_nat_add)
qed

lemma py_slice_chunk:
  assumes "0 < c"
  shows "py_slice xs (int i * c) (int i * c + c) = take (nat c) (drop (i * nat c) xs)"
proof -
  obtain k where k: "c = int k"
    using assms zero_less_imp_eq_int by blast
  have "int i * c = int (i * k)" by (simp add: k)
  then show ?thesis
    using py_slice_nat[of xs "i * k" k] by (simp add: k)
qed

lemma chunked_iterator_from_total:
  assumes "0 < c"
  shows "\<exists>chunks. chunked_iterator_from xs c i = Some chunks
           \<and> concat chunks = drop (i * nat c) xs
           \<and> chunks \<noteq> []
           \<and> (\<forall>ch\<in>set (butlast chunks). int (length ch) = c)
           \<and> int (length (last chunks)) < c
           \<and> length chunks = (length xs - i * nat c) div nat c + 1"
proof (induction "length xs - i * nat c" arbitrary: i rule: less_induct)
  case less
  let ?chunk = "take (nat c) (drop (i * nat c) xs)"
  have sl: "py_slice xs (int i * c) (int i * c + c) = ?chunk"
    by (rule py_slice_chunk [OF assms])
  show ?case
  proof (cases "int (length ?chunk) < c")
    case True
    have "chunked_iterator_from xs c i = Some [?chunk]"
      by (subst chunked_iterator_from.simps) (simp only: Let_def sl True if_True)
    moreover have "drop (i * nat c) xs = ?chunk" using True by auto
    moreover have "(length xs - i * nat c) div nat c = 0" using True assms by auto
    ultimately show ?thesis using True by auto
  next
    case False
    then have len: "nat c \<le> length xs - i * nat c" using assms by auto
    then have "length xs - Suc i * nat c < length xs - i * nat c" using assms by auto
    from less[OF this] obtain rest where rest:
      "chunked_iterator_from xs c (Suc i) = Some rest"
      "concat rest = drop (Suc i * nat c) xs" "rest \<noteq> []"
      "\<forall>ch\<in>set (butlast rest). int (length ch) = c"
      "int (length (last rest)) < c"
      "length rest = (length xs - Suc i * nat c) div nat c + 1"
      by blast
    have step: "chunked_iterator_from xs c i = Some (?chunk # rest)"
      by (subst chunked_iterator_from.simps)
        (simp only: Let_def sl False if_False rest(1) Option.bind.simps)
    have "?chunk @ drop (Suc i * nat c) xs = drop (i * nat c) xs"
      by (simp add: add.commute take_add[symmetric] flip: drop_drop)
    moreover have "int (length ?chunk) = c" using len assms by auto
    moreover have "(length xs - i * nat c) div nat c = (length xs - Suc i * nat c) div nat c + 1"
      using len assms le_div_geq[of "nat c" "length xs - i * nat c"] by (simp add: add.commute)
    ultimately show ?thesis using step rest by auto
  qed
qed

text \<open>
  With a \<open>chunk_size\<close> that is not positive no chunk is ever shorter than \<open>chunk_size\<close>:
  the loop never reaches its \<^verbatim>\<open>break\<close>.
\<close>

lemma chunked_iterator_from_never_ends:
  assumes "chunk_size \<le> 0"
  shows "chunked_iterator_from (iterable :: 'a list) chunk_size i = None"
proof -
  have "\<forall>(xs :: 'a list) cs i. cs \<le> 0 \<longrightarrow> chunked_iterator_from xs cs i = None"
  proof (induction rule: chunked_iterator_from.fixp_induct)
    case 1
    show ?case
      by (rule ccpo.admissibleI) (auto simp: fun_lub_def flat_lub_def)
  next
    case 2
    show ?case by simp
  next
    case (3 f)
    show ?case
    proof (intro allI impI)
      fix xs :: "'a list" and cs :: int and i :: nat
      assume cs: "cs \<le> 0"
      have "\<not> int (length (py_slice xs (int i * cs) (int i * cs + cs))) < cs"
        using cs by simp
      with 3 cs show "(let start = int i * cs; chunk = py_slice xs start (start + cs)
          in if int (length chunk) < cs then Some [chunk]
             else Option.bind (f xs cs (Suc i)) (\<lambda>rest. Some (chunk # rest))) = None"
        by (simp add: Let_def)
    qed
  qed
  with assms show ?thesis by blast
qed

text \<open>
  C2. For every sequence and every positive \<open>chunk_size\<close>, \<open>chunked_iterator\<close> ends and
  yields exactly the items of the sequence, each once and in the sequence's order. The
  chunks it fetches are full (\<open>chunk_size\<close> items) up to the last one, which is the first
  chunk shorter than \<open>chunk_size\<close>; nothing is fetched after it, so the number of
  fetches is \<open>len div chunk_size + 1\<close>.
\<close>

theorem chunked_iterator_yields_all:
  assumes "0 < chunk_size"
  shows "chunked_iterator iterable chunk_size = Some iterable
       \<and> (\<exists>chunks. chunked_iterator_from iterable chunk_size 0 = Some chunks
             \<and> concat chunks = iterable
             \<and> chunks \<noteq> []
             \<and> (\<forall>ch\<in>set (butlast chunks). int (length ch) = chunk_size)
             \<and> int (length (last chunks)) < chunk_size
             \<and> length chunks = length iterable div nat chunk_size + 1)"
  using chunked_iterator_from_total [OF assms, of iterable 0]
  by (auto simp: chunked_iterator_def)

theorem chunked_iterator_yields_all_witness:
  "(0::int) < 2
   \<and> chunked_iterator [10, 20, 30, 40, 50 :: nat] 2 = Some [10, 20, 30, 40, 50]
   \<and> chunked_iterator_from [10, 20, 30, 40, 50 :: nat] 2 0 = Some [[10, 20], [30, 40], [50]]
   \<and> chunked_iterator_from [10, 20, 30, 40 :: nat] 2 0 = Some [[10, 20], [30, 40], []]"
proof -
  have pos: "(0::int) < 2" by simp
  have a: "chunked_iterator_from [10, 20, 30, 40, 50 :: nat] 2 0 = Some [[10, 20], [30, 40], [50]]"
    by code_simp
  have b: "chunked_iterator_from [10, 20, 30, 40 :: nat] 2 0 = Some [[10, 20], [30, 40], []]"
    by code_simp
  show ?thesis
    using chunked_iterator_yields_all [OF pos, of "[10, 20, 30, 40, 50 :: nat]"] a b
    by simp
qed

subsection \<open>chunked\_queryset\<close>

text \<open>What one pass of the loop does, on a QuerySet ordered by key.\<close>

lemma step_Break_iff:
  "chunked_queryset_step q cs c = Break \<longleftrightarrow> (\<forall>r\<in>set q. pk r \<le> c)"
  by (auto simp: chunked_queryset_step_def qs_exists_def filter_pk_gt_def filter_empty_conv
      not_less split: sum.splits option.splits)

lemma sorted_pk_last:
  assumes "sorted (map pk q)" and "r \<in> set q"
  shows "pk r \<le> pk (last q)"
proof -
  from assms(2) obtain i where i: "i < length q" "q ! i = r"
    by (auto simp: in_set_conv_nth)
  then have "q \<noteq> []" by auto
  then have "last q = q ! (length q - 1)" by (rule last_conv_nth)
  moreover have "map pk q ! i \<le> map pk q ! (length q - 1)"
    using assms(1) i(1) by (intro sorted_nth_mono) auto
  ultimately show ?thesis using i by simp
qed

lemma qs_index_Inr:
  assumes "qs_index xs k = Inr v"
  shows "0 \<le> k \<and> nat k < length xs \<and> v = xs ! nat k"
  using assms by (auto simp: qs_index_def split: if_splits)

lemma step_Yield:
  assumes "sorted (map pk q)" and "chunked_queryset_step q cs c = Yield chunk e"
  shows "c < e \<and> (\<exists>r\<in>set q. pk r = e) \<and> chunk = filter (\<lambda>r. c < pk r \<and> pk r \<le> e) q"
proof -
  let ?rem = "filter (\<lambda>r. c < pk r) q"
  from assms(2) have ne: "?rem \<noteq> []"
    by (auto simp: chunked_queryset_step_def qs_exists_def filter_pk_gt_def split: if_splits)
  then obtain r0 where r0: "r0 \<in> set q" "c < pk r0"
    by (auto simp: filter_empty_conv)
  have chunk: "chunk = filter (\<lambda>r. c < pk r \<and> pk r \<le> e) q"
    using assms(2)
    by (auto simp: chunked_queryset_step_def filter_pk_gt_def filter_pk_lte_def conj_commute
        split: if_splits sum.splits option.splits)
  consider (idx) "qs_index (map pk ?rem) (cs - 1) = Inr e"
    | (fallback) "qs_index (map pk ?rem) (cs - 1) = Inl IndexError" "qs_last (map pk q) = Some e"
    using assms(2)
    by (auto simp: chunked_queryset_step_def filter_pk_gt_def values_list_pk_def
        split: if_splits sum.splits option.splits)
  then have "c < e \<and> (\<exists>r\<in>set q. pk r = e)"
  proof cases
    case idx
    then have "e \<in> set (map pk ?rem)"
      using qs_index_Inr [OF idx] nth_mem [of "nat (cs - 1)" "map pk ?rem"] by simp
    then show ?thesis by auto
  next
    case fallback
    from r0 have "q \<noteq> []" by auto
    with fallback(2) have e: "e = pk (last q)"
      by (simp add: qs_last_def last_map)
    moreover have "pk r0 \<le> pk (last q)" using sorted_pk_last [OF assms(1) r0(1)] .
    ultimately show ?thesis using r0 \<open>q \<noteq> []\<close> by auto
  qed
  with chunk show ?thesis by simp
qed

lemma cursor_measure:
  assumes "c < e" and "r \<in> set q" and "pk r = e"
  shows "length (filter_pk_gt e q) < length (filter_pk_gt c q)"
proof -
  have "filter_pk_gt e q = filter (\<lambda>r. e < pk r) (filter_pk_gt c q)"
    using assms(1) by (auto simp: filter_pk_gt_def intro: filter_cong)
  moreover have "r \<in> set (filter_pk_gt c q)" and "\<not> e < pk r"
    using assms by (auto simp: filter_pk_gt_def)
  ultimately show ?thesis
    by (simp add: length_filter_less)
qed

lemma chunked_queryset_loop_total:
  assumes "sorted (map pk q)"
  shows "\<exists>chunks err. chunked_queryset_loop q cs c = Some (chunks, err)
           \<and> length chunks \<le> length (filter_pk_gt c q)
           \<and> (\<forall>chunk\<in>set chunks. \<forall>r\<in>set chunk. c < pk r)"
proof (induction "length (filter_pk_gt c q)" arbitrary: c rule: less_induct)
  case less
  show ?case
  proof (cases "chunked_queryset_step q cs c")
    case Break
    then show ?thesis by (subst chunked_queryset_loop.simps) simp
  next
    case (Raise e)
    then show ?thesis by (subst chunked_queryset_loop.simps) simp
  next
    case (Yield chunk e)
    from step_Yield [OF assms Yield] obtain r where
      ce: "c < e" and r: "r \<in> set q" "pk r = e"
      and chunk: "chunk = filter (\<lambda>r. c < pk r \<and> pk r \<le> e) q"
      by blast
    have m: "length (filter_pk_gt e q) < length (filter_pk_gt c q)"
      using cursor_measure [OF ce r] .
    from less [OF m] obtain chunks err where rest:
      "chunked_queryset_loop q cs e = Some (chunks, err)"
      "length chunks \<le> length (filter_pk_gt e q)"
      "\<forall>chunk\<in>set chunks. \<forall>r\<in>set chunk. e < pk r"
      by blast
    have "chunked_queryset_loop q cs c = Some (chunk # chunks, err)"
      using Yield rest(1) by (subst chunked_queryset_loop.simps) simp
    moreover have "length (chunk # chunks) \<le> length (filter_pk_gt c q)"
      using rest(2) m by simp
    moreover have "\<forall>ch\<in>set (chunk # chunks). \<forall>r\<in>set ch. c < pk r"
      using rest(3) ce chunk by fastforce
    ultimately show ?thesis by blast
  qed
qed

text \<open>
  The order matters: over rows that are not ordered by key the fallback \<^verbatim>\<open>last()\<close> need
  not give the greatest key, and the cursor can stop moving. Here it stays at 1.
\<close>

lemma chunked_queryset_loop_unordered:
  "chunked_queryset_loop [Row 5 (), Row 1 ()] 3 0 = None"
proof -
  let ?q = "[Row 5 (), Row 1 ()]"
  have s0: "chunked_queryset_step ?q 3 0 = Yield [Row 1 ()] 1"
    by (simp add: chunked_queryset_step_def qs_exists_def filter_pk_gt_def filter_pk_lte_def
        values_list_pk_def qs_index_def qs_last_def)
  have s1: "chunked_queryset_step ?q 3 1 = Yield [] 1"
    by (simp add: chunked_queryset_step_def qs_exists_def filter_pk_gt_def filter_pk_lte_def
        values_list_pk_def qs_index_def qs_last_def)
  have "chunked_queryset_loop ?q 3 1 = None"
  proof (induction rule: chunked_queryset_loop.fixp_induct)
    case 1
    show ?case
      by (rule ccpo.admissibleI) (auto simp: fun_lub_def flat_lub_def)
  next
    case 2
    show ?case by simp
  next
    case (3 f)
    then show ?case by (simp add: s1)
  qed
  then show ?thesis
    by (subst chunked_queryset_loop.simps) (simp add: s0)
qed

lemma sorted_order_by_pk: "sorted (map pk (order_by_pk q))"
  by (simp add: order_by_pk_def)

text \<open>
  C3. For every queryset and every \<open>chunk_size\<close>, \<open>chunked_queryset\<close> ends (by returning
  or by raising), after at most as many chunks as the queryset has rows. A pass of the
  loop breaks exactly when no row has a primary key above the cursor, and every pass that
  yields moves the cursor to a strictly greater key.
\<close>

theorem chunked_queryset_terminates:
  "(\<exists>chunks err. chunked_queryset queryset chunk_size = Some (chunks, err)
       \<and> length chunks \<le> length queryset)
   \<and> (\<forall>c. chunked_queryset_step (order_by_pk queryset) chunk_size c = Break
          \<longleftrightarrow> \<not> (\<exists>r\<in>set queryset. c < pk r))
   \<and> (\<forall>c chunk e. chunked_queryset_step (order_by_pk queryset) chunk_size c = Yield chunk e
          \<longrightarrow> c < e)"
proof -
  obtain chunks err where run:
    "chunked_queryset_loop (order_by_pk queryset) chunk_size 0 = Some (chunks, err)"
    "length chunks \<le> length (filter_pk_gt 0 (order_by_pk queryset))"
    using chunked_queryset_loop_total [OF sorted_order_by_pk, of queryset chunk_size 0] by blast
  have "length (filter_pk_gt 0 (order_by_pk queryset)) \<le> length queryset"
    using length_filter_le [of "\<lambda>r. 0 < pk r" "order_by_pk queryset"]
    by (simp add: filter_pk_gt_def order_by_pk_def)
  with run have "\<exists>chunks err. chunked_queryset queryset chunk_size = Some (chunks, err)
       \<and> length chunks \<le> length queryset"
    by (auto simp: chunked_queryset_def)
  moreover have "chunked_queryset_step (order_by_pk queryset) chunk_size c = Break
          \<longleftrightarrow> \<not> (\<exists>r\<in>set queryset. c < pk r)" for c
    by (auto simp: step_Break_iff order_by_pk_def not_less)
  moreover have "c < e" if "chunked_queryset_step (order_by_pk queryset) chunk_size c = Yield chunk e"
    for c chunk e
    using step_Yield [OF sorted_order_by_pk that] by simp
  ultimately show ?thesis by blast
qed

theorem chunked_queryset_terminates_witness:
  "chunked_queryset_step (order_by_pk [Row 2 ''b'', Row 1 ''a'', Row 3 ''c'']) 2 0 =
      Yield [Row 1 ''a'', Row 2 ''b''] 2
   \<and> (0::int) < 2
   \<and> chunked_queryset_step (order_by_pk [Row 2 ''b'', Row 1 ''a'', Row 3 ''c'']) 2 3 = Break
   \<and> chunked_queryset [Row 2 ''b'', Row 1 ''a'', Row 3 ''c''] 2 =
      Some ([[Row 1 ''a'', Row 2 ''b''], [Row 3 ''c'']], None)
   \<and> chunked_queryset [Row 2 ''b'', Row 1 ''a'', Row 3 ''c''] 0 = Some ([], Some NegativeIndexing)"
proof -
  let ?qs = "[Row 2 ''b'', Row 1 ''a'', Row 3 ''c'']"
  have s: "chunked_queryset_step (order_by_pk ?qs) 2 0 = Yield [Row 1 ''a'', Row 2 ''b''] 2"
    by code_simp
  have b: "chunked_queryset_step (order_by_pk ?qs) 2 3 = Break"
    by code_simp
  have r: "chunked_queryset ?qs 2 = Some ([[Row 1 ''a'', Row 2 ''b''], [Row 3 ''c'']], None)"
    by code_simp
  have z: "chunked_queryset ?qs 0 = Some ([], Some NegativeIndexing)"
    by code_simp
  from chunked_queryset_terminates [of ?qs 2] s have "(0::int) < 2" by blast
  with s b r z show ?thesis by simp
qed

text \<open>
  C10. For every queryset and every \<open>chunk_size\<close>, every row of every chunk that
  \<open>chunked_queryset\<close> yields has a primary key above 0, the first cursor: a row whose key
  is zero or negative is in no chunk.
\<close>

theorem chunked_queryset_positive_keys:
  "\<exists>chunks err. chunked_queryset queryset chunk_size = Some (chunks, err)
     \<and> (\<forall>chunk\<in>set chunks. \<forall>r\<in>set chunk. 0 < pk r)"
  using chunked_queryset_loop_total [OF sorted_order_by_pk, of queryset chunk_size 0]
  by (auto simp: chunked_queryset_def)

theorem chunked_queryset_positive_keys_witness:
  "chunked_queryset [Row 1 ''b'', Row 0 ''a'', Row (- 1) ''z'', Row 5 ''e''] 1 =
      Some ([[Row 1 ''b''], [Row 5 ''e'']], None)
   \<and> list_all (\<lambda>chunk. list_all (\<lambda>r. 0 < pk r) chunk) [[Row 1 ''b''], [Row 5 ''e'']]"
proof -
  have r: "chunked_queryset [Row 1 ''b'', Row 0 ''a'', Row (- 1) ''z'', Row 5 ''e''] 1 =
      Some ([[Row 1 ''b''], [Row 5 ''e'']], None)"
    by code_simp
  show ?thesis
    using chunked_queryset_positive_keys [of "[Row 1 ''b'', Row 0 ''a'', Row (- 1) ''z'', Row 5 ''e'']" 1] r
    by (simp add: list_all_iff)
qed

text \<open>Chunks of a QuerySet whose keys are distinct.\<close>

lemma filter_le_nth_take:
  assumes "sorted_wrt (<) (map pk xs)" and "i < length xs"
  shows "filter (\<lambda>r. pk r \<le> pk (xs ! i)) xs = take (Suc i) xs"
  using assms
proof (induction xs arbitrary: i)
  case Nil
  then show ?case by simp
next
  case (Cons x xs)
  show ?case
  proof (cases i)
    case 0
    have "filter (\<lambda>r. pk r \<le> pk x) xs = []"
      using Cons.prems(1) by (auto simp: filter_empty_conv)
    with 0 show ?thesis by simp
  next
    case (Suc j)
    with Cons.prems have j: "j < length xs" by simp
    then have "xs ! j \<in> set xs" by simp
    with Cons.prems(1) have "pk x \<le> pk (xs ! j)" by auto
    moreover have "filter (\<lambda>r. pk r \<le> pk (xs ! j)) xs = take (Suc j) xs"
      using Cons.IH [OF _ j] Cons.prems(1) by simp
    ultimately show ?thesis using Suc by simp
  qed
qed

lemma filter_window_append:
  assumes "sorted (map pk q)" and "c \<le> e"
  shows "filter (\<lambda>r. c < pk r \<and> pk r \<le> e) q @ filter (\<lambda>r. e < pk r) q = filter (\<lambda>r. c < pk r) q"
  using assms(1)
proof (induction q)
  case Nil
  then show ?case by simp
next
  case (Cons x q)
  then have ih: "filter (\<lambda>r. c < pk r \<and> pk r \<le> e) q @ filter (\<lambda>r. e < pk r) q = filter (\<lambda>r. c < pk r) q"
    by simp
  show ?case
  proof (cases "e < pk x")
    case True
    with Cons.prems have all: "\<forall>r\<in>set q. e < pk r" by auto
    then have "filter (\<lambda>r. c < pk r \<and> pk r \<le> e) q = []"
      by (auto simp: filter_empty_conv)
    with ih True assms(2) show ?thesis by simp
  next
    case False
    with ih show ?thesis by simp
  qed
qed

lemma pk_last_max:
  assumes "sorted (map pk chunk)" and "r \<in> set chunk" and "\<forall>x\<in>set chunk. pk x \<le> pk r"
  shows "pk (last chunk) = pk r"
proof -
  from assms(2) have "chunk \<noteq> []" by auto
  then have "last chunk \<in> set chunk" by simp
  with assms(3) have "pk (last chunk) \<le> pk r" by blast
  with sorted_pk_last [OF assms(1,2)] show ?thesis by simp
qed

lemma step_no_Raise:
  assumes "1 \<le> cs"
  shows "chunked_queryset_step q cs c \<noteq> Raise e"
proof -
  have "q \<noteq> []" if "filter (\<lambda>r. c < pk r) q \<noteq> []"
    using that by auto
  then show ?thesis
    using assms
    by (auto simp: chunked_queryset_step_def qs_exists_def filter_pk_gt_def values_list_pk_def
        qs_index_def qs_last_def split: sum.splits option.splits if_splits)
qed

lemma step_Yield_length:
  assumes "sorted_wrt (<) (map pk q)" and "chunked_queryset_step q cs c = Yield chunk e"
  shows "int (length chunk) \<le> cs"
proof -
  let ?rem = "filter (\<lambda>r. c < pk r) q"
  have srt: "sorted_wrt (<) (map pk ?rem)"
    using assms(1) by (simp add: sorted_wrt_map sorted_wrt_filter)
  have chunk: "chunk = filter (\<lambda>r. pk r \<le> e) ?rem"
    using assms(2)
    by (auto simp: chunked_queryset_step_def filter_pk_gt_def filter_pk_lte_def
        split: if_splits sum.splits option.splits)
  consider (idx) "qs_index (map pk ?rem) (cs - 1) = Inr e"
    | (fallback) "qs_index (map pk ?rem) (cs - 1) = Inl IndexError"
    using assms(2)
    by (auto simp: chunked_queryset_step_def filter_pk_gt_def values_list_pk_def
        split: if_splits sum.splits option.splits)
  then show ?thesis
  proof cases
    case idx
    from qs_index_Inr [OF idx] have k: "0 \<le> cs - 1" "nat (cs - 1) < length ?rem"
      and e: "e = pk (?rem ! nat (cs - 1))" by simp_all
    have "chunk = take (Suc (nat (cs - 1))) ?rem"
      unfolding chunk e using filter_le_nth_take [OF srt k(2)] .
    then have "length chunk \<le> Suc (nat (cs - 1))" by simp
    with k(1) show ?thesis by linarith
  next
    case fallback
    then have "int (length ?rem) \<le> cs - 1"
      by (auto simp: qs_index_def split: if_splits)
    moreover have "length chunk \<le> length ?rem"
      unfolding chunk by (rule length_filter_le)
    ultimately show ?thesis by linarith
  qed
qed

lemma chunked_queryset_loop_chunks:
  assumes "sorted_wrt (<) (map pk q)" and "1 \<le> cs"
  shows "\<exists>chunks. chunked_queryset_loop q cs c = Some (chunks, None)
           \<and> concat chunks = filter_pk_gt c q
           \<and> (\<forall>chunk\<in>set chunks. int (length chunk) \<le> cs)
           \<and> keys_after c chunks"
proof (induction "length (filter_pk_gt c q)" arbitrary: c rule: less_induct)
  case less
  have srt: "sorted (map pk q)"
    using assms(1) by (simp add: strict_sorted_iff)
  show ?case
  proof (cases "chunked_queryset_step q cs c")
    case Break
    then have "filter_pk_gt c q = []"
      by (auto simp: step_Break_iff filter_pk_gt_def filter_empty_conv not_less)
    with Break show ?thesis by (subst chunked_queryset_loop.simps) simp
  next
    case (Raise e)
    with step_no_Raise [OF assms(2)] show ?thesis by blast
  next
    case (Yield chunk e)
    from step_Yield [OF srt Yield] obtain r where
      ce: "c < e" and r: "r \<in> set q" "pk r = e"
      and chunk: "chunk = filter (\<lambda>r. c < pk r \<and> pk r \<le> e) q"
      by blast
    from less [OF cursor_measure [OF ce r]] obtain chunks where rest:
      "chunked_queryset_loop q cs e = Some (chunks, None)"
      "concat chunks = filter_pk_gt e q"
      "\<forall>chunk\<in>set chunks. int (length chunk) \<le> cs"
      "keys_after e chunks"
      by blast
    have run: "chunked_queryset_loop q cs c = Some (chunk # chunks, None)"
      using Yield rest(1) by (subst chunked_queryset_loop.simps) simp
    have cat: "concat (chunk # chunks) = filter_pk_gt c q"
      using filter_window_append [OF srt, of c e] ce rest(2) chunk
      by (simp add: filter_pk_gt_def)
    have len: "\<forall>ch\<in>set (chunk # chunks). int (length ch) \<le> cs"
      using step_Yield_length [OF assms(1) Yield] rest(3) by simp
    have mem: "r \<in> set chunk" using r ce chunk by simp
    have "sorted (map pk chunk)"
      unfolding chunk using srt by (simp add: sorted_wrt_map sorted_wrt_filter)
    moreover have "\<forall>x\<in>set chunk. pk x \<le> pk r" using chunk r(2) by simp
    ultimately have "pk (last chunk) = e" using pk_last_max [of chunk r] mem r(2) by simp
    moreover have "list_all (\<lambda>r. c < pk r) chunk" using chunk by (simp add: list_all_iff)
    ultimately have "keys_after c (chunk # chunks)" using mem rest(4) by auto
    with run cat len show ?thesis by blast
  qed
qed

lemma distinct_pk_order_by_pk:
  assumes "distinct (map pk q)"
  shows "sorted_wrt (<) (map pk (order_by_pk q))"
proof -
  have "distinct (map pk (order_by_pk q))"
    using assms by (simp add: distinct_map order_by_pk_def)
  then show ?thesis
    by (simp add: strict_sorted_iff order_by_pk_def)
qed

text \<open>
  C1, as stated, fails for a queryset with a key that is not positive: the rows with the
  keys 0 and -1 are in no chunk, so the chunks do not add up to the queryset.
\<close>

theorem chunked_queryset_counterexample:
  "distinct (map pk [Row 1 ''b'', Row 0 ''a'', Row (- 1) ''z''])
   \<and> chunked_queryset [Row 1 ''b'', Row 0 ''a'', Row (- 1) ''z''] 2 = Some ([[Row 1 ''b'']], None)
   \<and> set (concat [[Row 1 ''b'']]) \<noteq> set [Row 1 ''b'', Row 0 ''a'', Row (- 1) ''z'']"
proof -
  have "chunked_queryset [Row 1 ''b'', Row 0 ''a'', Row (- 1) ''z''] 2 = Some ([[Row 1 ''b'']], None)"
    by code_simp
  then show ?thesis by simp
qed

text \<open>
  C1 (amended). For every queryset whose primary keys are distinct and positive, and
  every \<open>chunk_size\<close> of at least 1, \<open>chunked_queryset\<close> returns after yielding chunks
  that add up to the queryset in key order, every row once: the keys rise strictly through
  the chunks, no chunk is empty or has more than \<open>chunk_size\<close> rows, and every row of a
  chunk has a key above the last key seen before it.
\<close>

theorem chunked_queryset_yields_all:
  assumes "distinct (map pk queryset)" and "\<forall>r\<in>set queryset. 0 < pk r" and "1 \<le> chunk_size"
  shows "\<exists>chunks. chunked_queryset queryset chunk_size = Some (chunks, None)
           \<and> concat chunks = order_by_pk queryset
           \<and> sorted_wrt (<) (map pk (concat chunks))
           \<and> distinct (concat chunks)
           \<and> set (concat chunks) = set queryset
           \<and> (\<forall>chunk\<in>set chunks. int (length chunk) \<le> chunk_size)
           \<and> keys_after 0 chunks"
proof -
  have srt: "sorted_wrt (<) (map pk (order_by_pk queryset))"
    using distinct_pk_order_by_pk [OF assms(1)] .
  have all: "filter_pk_gt 0 (order_by_pk queryset) = order_by_pk queryset"
    using assms(2) by (simp add: filter_pk_gt_def order_by_pk_def)
  from chunked_queryset_loop_chunks [OF srt assms(3), of 0] obtain chunks where run:
    "chunked_queryset_loop (order_by_pk queryset) chunk_size 0 = Some (chunks, None)"
    "concat chunks = filter_pk_gt 0 (order_by_pk queryset)"
    "\<forall>chunk\<in>set chunks. int (length chunk) \<le> chunk_size"
    "keys_after 0 chunks"
    by blast
  have cat: "concat chunks = order_by_pk queryset" using run(2) all by simp
  have "distinct queryset" using assms(1) by (simp add: distinct_map)
  then have dist: "distinct (concat chunks)" and mem: "set (concat chunks) = set queryset"
    unfolding cat by (simp_all add: order_by_pk_def)
  have ord: "sorted_wrt (<) (map pk (concat chunks))"
    unfolding cat using srt .
  have "chunked_queryset queryset chunk_size = Some (chunks, None)"
    using run(1) by (simp add: chunked_queryset_def)
  with cat ord dist mem run(3,4) show ?thesis by blast
qed

theorem chunked_queryset_yields_all_witness:
  "distinct (map pk [Row 30 ''c'', Row 10 ''a'', Row 20 ''b''])
   \<and> list_all (\<lambda>r. 0 < pk r) [Row 30 ''c'', Row 10 ''a'', Row 20 ''b'']
   \<and> chunked_queryset [Row 30 ''c'', Row 10 ''a'', Row 20 ''b''] 2 =
        Some ([[Row 10 ''a'', Row 20 ''b''], [Row 30 ''c'']], None)
   \<and> concat [[Row 10 ''a'', Row 20 ''b''], [Row 30 ''c'']] = order_by_pk [Row 30 ''c'', Row 10 ''a'', Row 20 ''b'']
   \<and> keys_after 0 [[Row 10 ''a'', Row 20 ''b''], [Row 30 ''c'']]"
proof -
  let ?qs = "[Row 30 ''c'', Row 10 ''a'', Row 20 ''b'']"
  have d: "distinct (map pk ?qs)" by simp
  have p: "\<forall>r\<in>set ?qs. 0 < pk r" by simp
  have c: "(1::int) \<le> 2" by simp
  have run: "chunked_queryset ?qs 2 = Some ([[Row 10 ''a'', Row 20 ''b''], [Row 30 ''c'']], None)"
    by code_simp
  show ?thesis
    using chunked_queryset_yields_all [OF d p c] run by simp
qed

subsection \<open>get\_field\_or\_none\<close>

text \<open>
  C4. \<open>get_field_or_none\<close> returns the field the model's catalog gives for the name; when
  the catalog raises FieldDoesNotExist it returns None and does not raise; every other
  failure of the catalog is raised unchanged.
\<close>

theorem get_field_or_none_spec:
  "(\<forall>field. get_field meta field_name = Inr field \<longrightarrow>
       get_field_or_none meta field_name = Inr (Some field))
   \<and> (get_field meta field_name = Inl FieldDoesNotExist \<longrightarrow>
       get_field_or_none meta field_name = Inr None)
   \<and> (\<forall>e. get_field meta field_name = Inl e \<and> e \<noteq> FieldDoesNotExist \<longrightarrow>
       get_field_or_none meta field_name = Inl e)
   \<and> get_field_or_none meta field_name \<noteq> Inl FieldDoesNotExist"
  by (simp add: get_field_or_none_def split: sum.splits)

theorem get_field_or_none_witness:
  "get_field_or_none example_meta ''name'' = Inr (Some 7)
   \<and> get_field_or_none example_meta ''age'' = Inr None
   \<and> get_field_or_none example_meta ''broken'' = Inl (OtherError ''apps not ready'')"
  using get_field_or_none_spec [of example_meta "''name''"]
    get_field_or_none_spec [of example_meta "''age''"]
    get_field_or_none_spec [of example_meta "''broken''"]
  by (simp add: example_meta_def)

subsection \<open>str\_to\_class\<close>

lemma rsplit1_at_last:
  assumes "sep \<notin> set b"
  shows "rsplit1 sep (a @ sep # b) = [a, b]"
proof -
  have "rev (a @ sep # b) = rev b @ sep # rev a" by simp
  moreover have "takeWhile (\<lambda>c. c \<noteq> sep) (rev b @ sep # rev a) = rev b"
    using assms by (auto simp: takeWhile_tail)
  moreover have "dropWhile (\<lambda>c. c \<noteq> sep) (rev b @ sep # rev a) = sep # rev a"
    using assms by (auto simp: dropWhile_append3)
  ultimately show ?thesis by (simp add: rsplit1_def)
qed

text \<open>
  C5. For a dotted path \<open>module_name.class_name\<close> (the class name after the last dot),
  \<open>str_to_class\<close> imports the module \<open>module_name\<close> and returns its attribute
  \<open>class_name\<close> when both exist; a failure of the import (ImportError) or of the
  attribute lookup (AttributeError) is raised to the caller unchanged.
\<close>

theorem str_to_class_spec:
  assumes "CHR ''.'' \<notin> set class_name"
  shows "(\<forall>m c. py_import module_name [class_name] = Inr m \<and> py_getattr m class_name = Inr c \<longrightarrow>
            str_to_class py_import py_getattr (module_name @ ''.'' @ class_name) = Inr c)
       \<and> (\<forall>e. py_import module_name [class_name] = Inl e \<longrightarrow>
            str_to_class py_import py_getattr (module_name @ ''.'' @ class_name) = Inl e)
       \<and> (\<forall>m e. py_import module_name [class_name] = Inr m \<and> py_getattr m class_name = Inl e \<longrightarrow>
            str_to_class py_import py_getattr (module_name @ ''.'' @ class_name) = Inl e)"
  using rsplit1_at_last [OF assms]
  by (simp add: str_to_class_def)

theorem str_to_class_witness:
  "str_to_class (\<lambda>name fromlist. if name = ''gdpr.utils'' then Inr (1::nat) else Inl ImportError)
      (\<lambda>m name. if name = ''str_to_class'' then Inr (m + 41) else Inl AttributeError)
      ''gdpr.utils.str_to_class'' = Inr 42
   \<and> str_to_class (\<lambda>name fromlist. if name = ''gdpr.utils'' then Inr (1::nat) else Inl ImportError)
      (\<lambda>m name. if name = ''str_to_class'' then Inr (m + 41) else Inl AttributeError)
      ''gdpr.nothing.str_to_class'' = Inl ImportError
   \<and> str_to_class (\<lambda>name fromlist. if name = ''gdpr.utils'' then Inr (1::nat) else Inl ImportError)
      (\<lambda>m name. if name = ''str_to_class'' then Inr (m + 41) else Inl AttributeError)
      ''gdpr.utils.nothing'' = Inl AttributeError"
proof -
  let ?imp = "\<lambda>name (fromlist :: string list). if name = ''gdpr.utils'' then Inr (1::nat) else Inl ImportError"
  let ?get = "\<lambda>(m::nat) name. if name = ''str_to_class'' then Inr (m + 41) else Inl AttributeError"
  have a: "CHR ''.'' \<notin> set ''str_to_class''" and b: "CHR ''.'' \<notin> set ''nothing''"
    by simp_all
  show ?thesis
    using str_to_class_spec [OF a, of ?imp "''gdpr.utils''" ?get]
      str_to_class_spec [OF a, of ?imp "''gdpr.nothing''" ?get]
      str_to_class_spec [OF b, of ?imp "''gdpr.utils''" ?get]
    by simp
qed

subsection \<open>get\_all\_parent\_objects\<close>

text \<open>
  C6. For every parent model that \<open>obj._meta.get_parent_list()\<close> lists,
  \<open>get_all_parent_objects\<close> takes the path \<open>obj._meta.get_path_to_parent\<close> gives to it,
  reads the name of the join field of each step, and follows these names from the object,
  one attribute lookup per name. It returns the objects so reached, in the order of the
  parent list. A path that meets None at any step ends in None and adds nothing; the
  returned list has no None.
\<close>

theorem get_all_parent_objects_spec:
  "None \<notin> set (get_all_parent_objects attr meta obj)
   \<and> get_all_parent_objects attr meta obj =
       map Some (List.map_filter
         (\<lambda>parent_model.
            follow_path attr obj (map join_field_name (get_path_to_parent meta parent_model)))
         (get_parent_list meta))
   \<and> (\<forall>a. Some a \<in> set (get_all_parent_objects attr meta obj) \<longleftrightarrow>
          (\<exists>parent_model\<in>set (get_parent_list meta).
             follow_path attr obj (map join_field_name (get_path_to_parent meta parent_model))
               = Some a))
   \<and> parent_paths meta =
       map (\<lambda>parent_model. map join_field_name (get_path_to_parent meta parent_model))
         (get_parent_list meta)
   \<and> follow_path attr obj [] = Some obj
   \<and> (\<forall>p name. follow_path attr obj (p @ [name]) =
          (case follow_path attr obj p of None \<Rightarrow> None | Some a \<Rightarrow> attr a name))
   \<and> (\<forall>p q. follow_path attr obj p = None \<longrightarrow> follow_path attr obj (p @ q) = None)"
proof -
  let ?path = "\<lambda>parent_model. map join_field_name (get_path_to_parent meta parent_model)"
  have none: "foldl (getattr_or_none attr) None q = None" for q
    by (induction q) (simp_all add: getattr_or_none_def)
  have paths: "parent_paths meta = map ?path (get_parent_list meta)"
    by (simp add: parent_paths_def)
  have eq: "filter (\<lambda>i. i \<noteq> None) (map f (map g ms)) = map Some (List.map_filter (\<lambda>m. f (g m)) ms)"
    for f :: "string list \<Rightarrow> 'a option" and g :: "'b \<Rightarrow> string list" and ms
    by (induction ms) (auto simp: List.map_filter_simps split: option.splits)
  have res: "get_all_parent_objects attr meta obj =
       map Some (List.map_filter (\<lambda>m. follow_path attr obj (?path m)) (get_parent_list meta))"
    by (simp only: get_all_parent_objects_def Let_def paths eq)
  have mem: "Some a \<in> set (get_all_parent_objects attr meta obj) \<longleftrightarrow>
          (\<exists>m\<in>set (get_parent_list meta). follow_path attr obj (?path m) = Some a)" for a
    unfolding get_all_parent_objects_def Let_def paths
    by (force simp: image_iff)
  have nn: "None \<notin> set (get_all_parent_objects attr meta obj)"
    by (simp add: get_all_parent_objects_def)
  have f0: "follow_path attr obj [] = Some obj"
    by (simp add: follow_path_def)
  have f1: "follow_path attr obj (p @ [name]) =
          (case follow_path attr obj p of None \<Rightarrow> None | Some a \<Rightarrow> attr a name)" for p name
    by (simp add: follow_path_def getattr_or_none_def)
  have f2: "follow_path attr obj (p @ q) = None" if "follow_path attr obj p = None" for p q
    using that by (simp add: follow_path_def none)
  from nn res mem paths f0 f1 f2 show ?thesis by blast
qed

theorem get_all_parent_objects_witness:
  "get_all_parent_objects example_attr example_meta 0 = [Some 1, Some 2]
   \<and> get_parent_list example_meta = [10, 20, 30]
   \<and> map join_field_name (get_path_to_parent example_meta 10) = [''parent_ptr'']
   \<and> map join_field_name (get_path_to_parent example_meta 20) = [''parent_ptr'', ''base_ptr'']
   \<and> map join_field_name (get_path_to_parent example_meta 30) = [''gone_ptr'', ''base_ptr'']
   \<and> follow_path example_attr 0 [''gone_ptr''] = None
   \<and> follow_path example_attr 0 ([''gone_ptr''] @ [''base_ptr'']) = None"
proof -
  have l: "get_parent_list example_meta = [10, 20, 30]"
    by (simp add: example_meta_def)
  have p: "map join_field_name (get_path_to_parent example_meta 10) = [''parent_ptr'']"
    "map join_field_name (get_path_to_parent example_meta 20) = [''parent_ptr'', ''base_ptr'']"
    "map join_field_name (get_path_to_parent example_meta 30) = [''gone_ptr'', ''base_ptr'']"
    by (simp_all add: example_meta_def)
  have g: "follow_path example_attr 0 [''gone_ptr''] = None"
    by (simp add: follow_path_def getattr_or_none_def example_attr_def)
  have f: "follow_path example_attr 0 [''parent_ptr''] = Some 1"
     "follow_path example_attr 0 [''parent_ptr'', ''base_ptr''] = Some 2"
     "follow_path example_attr 0 [''gone_ptr'', ''base_ptr''] = None"
    by (simp_all add: follow_path_def getattr_or_none_def example_attr_def)
  show ?thesis
    using get_all_parent_objects_spec [of example_attr example_meta 0] l p g f
    by (simp add: List.map_filter_simps)
qed

subsection \<open>get\_all\_obj\_and\_parent\_versions\<close>

text \<open>
  C7. \<open>get_all_obj_and_parent_versions\<close> is the version lists of the parent objects, in
  the order \<open>get_all_parent_objects\<close> gives them, followed by the version list of the
  object itself, each list as the version store returns it; it is the flattening of
  \<open>get_all_obj_and_parent_versions_queryset_list\<close>.
\<close>

theorem get_all_obj_and_parent_versions_spec:
  "get_all_obj_and_parent_versions get_for_object attr meta obj =
     concat (map get_for_object (get_all_parent_objects attr meta obj)) @ get_for_object (Some obj)
   \<and> get_all_obj_and_parent_versions get_for_object attr meta obj =
     concat (get_all_obj_and_parent_versions_queryset_list get_for_object attr meta obj)
   \<and> get_all_obj_and_parent_versions_queryset_list get_for_object attr meta obj =
     map get_for_object (get_all_parent_objects attr meta obj) @ [get_for_object (Some obj)]"
proof -
  have "get_reversion_versions get_for_object = get_for_object"
    by (rule ext) (simp add: get_reversion_versions_def)
  then show ?thesis
    by (simp add: get_all_obj_and_parent_versions_def
        get_all_obj_and_parent_versions_queryset_list_def)
qed

theorem get_all_obj_and_parent_versions_witness:
  "get_all_obj_and_parent_versions example_versions example_attr example_meta 0 =
     [''p1'', ''b3'', ''b2'', ''b1'', ''c2'', ''c1'']"
proof -
  have "get_all_parent_objects example_attr example_meta 0 = [Some 1, Some 2]"
    by (simp add: get_all_parent_objects_def parent_paths_def example_meta_def
        follow_path_def getattr_or_none_def example_attr_def)
  then show ?thesis
    using get_all_obj_and_parent_versions_spec [of example_versions example_attr example_meta 0]
    by (simp add: example_versions_def)
qed

subsection \<open>ProgressBarStream\<close>

text \<open>
  C8, as stated, fails for a write call that passes \<open>ending\<close> itself: the call raises
  TypeError and the wrapped stream's \<open>write\<close> never runs.
\<close>

theorem ProgressBarStream_write_counterexample:
  "ProgressBarStream_write \<lparr>stream = recording_stream\<rparr> [PyStr ''50%''] [''ending'' \<mapsto> PyStr ''!''] [] =
      (Inl TypeError, [])
   \<and> stream_write recording_stream [PyStr ''50%''] ([''ending'' \<mapsto> PyStr ''!''](''ending'' \<mapsto> PyStr [])) [] =
      (Inr 1, [([PyStr ''50%''], Some (PyStr []))])
   \<and> ProgressBarStream_write \<lparr>stream = recording_stream\<rparr> [PyStr ''50%''] [''ending'' \<mapsto> PyStr ''!''] [] \<noteq>
      stream_write recording_stream [PyStr ''50%''] ([''ending'' \<mapsto> PyStr ''!''](''ending'' \<mapsto> PyStr [])) []"
  by (simp add: ProgressBarStream_write_def recording_stream_def)

text \<open>
  C8 (amended). A write call that does not pass \<open>ending\<close> is forwarded to the wrapped
  stream's \<open>write\<close> with the same arguments and \<open>ending\<close> set to the empty string, and
  gives that call's result and effect; a write call that passes \<open>ending\<close> raises
  TypeError and leaves the stream as it was; \<open>flush\<close> is the wrapped stream's \<open>flush\<close>.
\<close>

theorem ProgressBarStream_spec:
  "(''ending'' \<notin> dom kwargs \<longrightarrow>
      ProgressBarStream_write self args kwargs s =
        stream_write (stream self) args (kwargs(''ending'' \<mapsto> PyStr [])) s)
   \<and> (''ending'' \<in> dom kwargs \<longrightarrow> ProgressBarStream_write self args kwargs s = (Inl TypeError, s))
   \<and> ProgressBarStream_flush self s = stream_flush (stream self) s"
  by (simp add: ProgressBarStream_write_def ProgressBarStream_flush_def)

theorem ProgressBarStream_witness:
  "ProgressBarStream_write \<lparr>stream = recording_stream\<rparr> [PyStr ''50%''] Map.empty [] =
      (Inr 1, [([PyStr ''50%''], Some (PyStr []))])
   \<and> ProgressBarStream_write \<lparr>stream = recording_stream\<rparr> [PyStr ''50%''] [''ending'' \<mapsto> PyStr ''!''] [] =
      (Inl TypeError, [])
   \<and> ProgressBarStream_flush \<lparr>stream = recording_stream\<rparr> [([PyStr ''50%''], Some (PyStr []))] =
      (Inr 1, [([PyStr ''50%''], Some (PyStr []))])"
  using ProgressBarStream_spec [of Map.empty "\<lparr>stream = recording_stream\<rparr>" "[PyStr ''50%'']" "[]"]
    ProgressBarStream_spec [of "[''ending'' \<mapsto> PyStr ''!'']" "\<lparr>stream = recording_stream\<rparr>" "[PyStr ''50%'']" "[]"]
    ProgressBarStream_spec [of Map.empty "\<lparr>stream = recording_stream\<rparr>" "[]" "[([PyStr ''50%''], Some (PyStr []))]"]
  by (simp add: recording_stream_def)

subsection \<open>get\_number\_guess\_len\<close>

declare str_nat.simps [simp del]

lemma length_str_nat_pos: "0 < length (str_nat n)"
  by (subst str_nat.simps) simp

lemma str_nat_upper: "n < 10 ^ length (str_nat n)"
proof (induction n rule: str_nat.induct)
  case (1 n)
  show ?case
  proof (cases "n < 10")
    case True
    then show ?thesis by (subst str_nat.simps) simp
  next
    case False
    with 1 have "n div 10 < 10 ^ length (str_nat (n div 10))" by simp
    then have "n < 10 * 10 ^ length (str_nat (n div 10))" by simp
    with False show ?thesis by (subst str_nat.simps) simp
  qed
qed

lemma str_nat_lower: "length (str_nat n) = 1 \<or> 10 ^ (length (str_nat n) - 1) \<le> n"
proof (induction n rule: str_nat.induct)
  case (1 n)
  show ?case
  proof (cases "n < 10")
    case True
    then show ?thesis by (subst str_nat.simps) simp
  next
    case False
    let ?m = "n div 10"
    from False 1 have ih: "length (str_nat ?m) = 1 \<or> 10 ^ (length (str_nat ?m) - 1) \<le> ?m" by simp
    have len: "length (str_nat n) = Suc (length (str_nat ?m))"
      using False by (subst str_nat.simps) simp
    have "10 ^ (length (str_nat ?m) - 1) \<le> ?m"
    proof (cases "length (str_nat ?m) = 1")
      case True
      then show ?thesis using False by simp
    next
      case False
      then show ?thesis using ih by simp
    qed
    then have "10 * 10 ^ (length (str_nat ?m) - 1) \<le> n" by simp
    moreover have "(10::nat) * 10 ^ (length (str_nat ?m) - 1) = 10 ^ length (str_nat ?m)"
      using length_str_nat_pos [of ?m] by (cases "length (str_nat ?m)") simp_all
    ultimately show ?thesis using len by simp
  qed
qed

lemma has_decimal_digits_str_nat: "has_decimal_digits n (length (str_nat n))"
  using length_str_nat_pos [of n] str_nat_upper [of n] str_nat_lower [of n]
  by (simp add: has_decimal_digits_def)

lemma has_decimal_digits_unique:
  assumes "has_decimal_digits n d" and "has_decimal_digits n e"
  shows "d = e"
proof -
  have less: False if a: "has_decimal_digits n d'" and b: "has_decimal_digits n e'" and lt: "d' < e'"
    for d' e'
  proof -
    from a have "n < 10 ^ d'" by (simp add: has_decimal_digits_def)
    moreover from a b lt have "10 ^ (e' - 1) \<le> n" by (auto simp: has_decimal_digits_def)
    moreover from lt have "(10::nat) ^ d' \<le> 10 ^ (e' - 1)"
      by (intro power_increasing) auto
    ultimately show False by simp
  qed
  show ?thesis
    using less [OF assms] less [OF assms(2) assms(1)] by (meson linorder_neqE_nat)
qed

text \<open>
  C9, as stated, fails for a negative value: \<open>-12\<close> has two digits, and the result is 3
  (the minus sign is counted), not 1.
\<close>

theorem get_number_guess_len_counterexample:
  "has_decimal_digits (nat \<bar>- 12\<bar>) 2 \<and> get_number_guess_len (- 12) = 3
   \<and> get_number_guess_len (- 12) \<noteq> (if odd (2::nat) then int 2 else int 2 - 1)"
  by (simp add: has_decimal_digits_def get_number_guess_len_def str_int_def str_nat.simps)

text \<open>
  C9 (amended). For every value that is not negative and whose integer part has \<open>d\<close>
  decimal digits, \<open>get_number_guess_len\<close> returns \<open>d\<close> when \<open>d\<close> is odd and \<open>d - 1\<close>
  when \<open>d\<close> is even. For every value, the result is odd.
\<close>

theorem get_number_guess_len_spec:
  "(0 \<le> value \<and> has_decimal_digits (nat value) d \<longrightarrow>
      get_number_guess_len value = (if odd d then int d else int d - 1))
   \<and> odd (get_number_guess_len value)"
proof -
  have "d = length (str_int value)" if "0 \<le> value" "has_decimal_digits (nat value) d"
    using that has_decimal_digits_unique [OF that(2) has_decimal_digits_str_nat]
    by (simp add: str_int_def)
  moreover have "odd (get_number_guess_len value)"
    by (simp add: get_number_guess_len_def Let_def flip: even_iff_mod_2_eq_zero)
  ultimately show ?thesis
    by (auto simp: get_number_guess_len_def Let_def simp flip: even_iff_mod_2_eq_zero)
qed

theorem get_number_guess_len_witness:
  "get_number_guess_len 1234 = 3 \<and> get_number_guess_len 123 = 3 \<and> odd (get_number_guess_len 1234)"
proof -
  have a: "has_decimal_digits (nat 1234) 4" and b: "has_decimal_digits (nat 123) 3"
    by (simp_all add: has_decimal_digits_def)
  show ?thesis
    using get_number_guess_len_spec [of 1234 4] get_number_guess_len_spec [of 123 3] a b
    by simp
qed

end
